theory Spec2Isabelle
  imports Main "HOL-Library.Word" "HOL-Library.Multiset"
begin

section \<open>Data model\<close>

text \<open>
  The queued pool of \<^verbatim>\<open>app/data/queued.go\<close> holds pointers to transaction records:
  the map \<^verbatim>\<open>Transactions\<close> and both sorted lists share the same \<^verbatim>\<open>*MemPoolTx\<close>
  objects, and the remover writes \<^verbatim>\<open>UnstuckAt\<close> through the pointer.  Records
  therefore live in an explicit store (\<open>mem\<close>) and the pool holds references.  A Go
  pointer that is not nil always points to a live object, so the store is total
  and nil is \<open>None\<close>.
\<close>

type_synonym Hash = "256 word"
type_synonym Address = "160 word"
type_synonym Time = int
type_synonym ref = nat

text \<open>
  Modelled from the spec: the struct \<^verbatim>\<open>MemPoolTx\<close> is declared outside the given
  sources; its fields are those of the spec's Tx Record (section 3).
\<close>

record MemPoolTx =
  Hash :: Hash
  From :: Address
  To :: Address
  Nonce :: "64 word"
  GasPrice :: nat
  QueuedAt :: Time
  PendingAt :: Time
  UnstuckAt :: Time
  Pool :: string

text \<open>
  Modelled from the spec: the interface \<^verbatim>\<open>TxList\<close> with its two instances
  (ascending and descending by gas price) and the functions \<^verbatim>\<open>Insert\<close> and
  \<^verbatim>\<open>Remove\<close> on it are declared outside the given sources (spec section 4.1).
  \<^verbatim>\<open>Insert\<close> keeps the order, an equal-priced entry going after its equals in the
  ascending list and before them in the descending one; \<^verbatim>\<open>Remove\<close> locates the
  record by identity and excises it.
\<close>

datatype TxList = AscList "ref list" | DescList "ref list"

fun TxList_get :: "TxList \<Rightarrow> ref list" where
  "TxList_get (AscList xs) = xs"
| "TxList_get (DescList xs) = xs"

definition TxList_len :: "TxList \<Rightarrow> nat" where
  "TxList_len l = length (TxList_get l)"

fun Insert :: "(ref \<Rightarrow> MemPoolTx) \<Rightarrow> TxList \<Rightarrow> ref \<Rightarrow> TxList" where
  "Insert m (AscList xs) tx =
     AscList (takeWhile (\<lambda>y. GasPrice (m y) \<le> GasPrice (m tx)) xs @ tx #
              dropWhile (\<lambda>y. GasPrice (m y) \<le> GasPrice (m tx)) xs)"
| "Insert m (DescList xs) tx =
     DescList (takeWhile (\<lambda>y. GasPrice (m tx) < GasPrice (m y)) xs @ tx #
               dropWhile (\<lambda>y. GasPrice (m tx) < GasPrice (m y)) xs)"

fun Remove :: "TxList \<Rightarrow> ref \<Rightarrow> TxList" where
  "Remove (AscList xs) tx = AscList (remove1 tx xs)"
| "Remove (DescList xs) tx = DescList (remove1 tx xs)"

text \<open>
  The two pub/sub topics (\<^verbatim>\<open>GetQueuedTxEntryPublishTopic\<close>,
  \<^verbatim>\<open>GetQueuedTxExitPublishTopic\<close>).
\<close>

datatype topic = EntryTopic | ExitTopic

text \<open>
  The constants \<^verbatim>\<open>STUCK\<close>, \<^verbatim>\<open>UNSTUCK\<close>, \<^verbatim>\<open>SCHEDULED\<close>, \<^verbatim>\<open>PRUNING\<close>, \<^verbatim>\<open>EMPTY\<close>, \<^verbatim>\<open>ASC\<close>
  and \<^verbatim>\<open>DESC\<close> and the struct \<^verbatim>\<open>TxStatus\<close> (fields \<^verbatim>\<open>Hash\<close> and \<^verbatim>\<open>Status\<close>) are
  declared outside the given sources; the code uses them by name only.
\<close>

datatype TxState = STUCK | UNSTUCK

record TxStatus =
  StatusHash :: Hash
  Status :: TxState

datatype prune_reply = SCHEDULED | PRUNING | EMPTY

datatype order = ASC | DESC

datatype panic = NilDereference | SliceBoundsOutOfRange

datatype rpc_error = RPCError

text \<open>
  The upstream snapshot \<^verbatim>\<open>map[string]map[string]*MemPoolTx\<close>: sender, then nonce as
  a string, then the record.
\<close>

type_synonym TxPoolContent = "(string \<times> (string \<times> ref) list) list"

text \<open>
  The prune goroutine started by the owning task: \<open>Spawned\<close> before it has taken its
  snapshot, \<open>Collecting\<close> while it reads the results channel: the results not yet
  received in the order of arrival, then the counters \<^verbatim>\<open>received\<close> and \<^verbatim>\<open>txCount\<close>.
  It is \<open>Removing\<close> while it is inside the remover, after the lookup under the read
  lock and before the update under the write lock: the results not yet received,
  the two counters, and the hash and the pointer that the lookup returned.
\<close>

datatype prune_job =
  NoJob
| Spawned TxPoolContent TxPoolContent
| Collecting "TxStatus list" nat nat
| Removing "TxStatus list" nat nat Hash ref

text \<open>
  The struct \<^verbatim>\<open>QueuedPool\<close> (its first four fields) together with what its code
  reads and writes beyond it: the record store, the messages handed to the
  publisher, the records handed to \<^verbatim>\<open>PendingPool.Add\<close>, the slices allocated for
  callers by the list handler, and the prune goroutine.
\<close>

record QueuedPool =
  Transactions :: "Hash \<rightharpoonup> ref"
  AscTxsByGasPrice :: TxList
  DescTxsByGasPrice :: TxList
  IsPruning :: bool
  mem :: "ref \<Rightarrow> MemPoolTx"
  published :: "(topic \<times> MemPoolTx option) list"
  promoted :: "ref list"
  slices :: "(ref list) list"
  job :: prune_job

text \<open>
  Modelled from the spec: the pool is constructed outside the given sources.  It
  starts with nothing stored and no prune in flight; \<open>m\<close> is the record store.
\<close>

definition NewQueuedPool :: "(ref \<Rightarrow> MemPoolTx) \<Rightarrow> QueuedPool" where
  "NewQueuedPool m =
     \<lparr> Transactions = Map.empty, AscTxsByGasPrice = AscList [], DescTxsByGasPrice = DescList [],
       IsPruning = False, mem = m, published = [], promoted = [], slices = [], job = NoJob \<rparr>"

section \<open>The owning task\<close>

text \<open>
  \<^verbatim>\<open>PublishAdded\<close> and \<^verbatim>\<open>PublishRemoved\<close> encode the record and publish it on their
  topic; a failure is logged and nothing else happens.  Modelled from the spec:
  the encoder \<^verbatim>\<open>ToMessagePack\<close> is declared outside the given sources and the
  publisher is external (spec sections 6 and 9); the log \<open>published\<close> keeps what
  each call is handed, the record behind the pointer as it is at that moment, or
  \<open>None\<close> for a nil pointer, which the spec says is published as a null record.
\<close>

definition PublishAdded :: "ref option \<Rightarrow> QueuedPool \<Rightarrow> QueuedPool" where
  "PublishAdded msg q = q\<lparr> published := published q @ [(EntryTopic, map_option (mem q) msg)] \<rparr>"

definition PublishRemoved :: "ref option \<Rightarrow> QueuedPool \<Rightarrow> QueuedPool" where
  "PublishRemoved msg q = q\<lparr> published := published q @ [(ExitTopic, map_option (mem q) msg)] \<rparr>"

text \<open>
  The closure \<^verbatim>\<open>txRemover\<close> of \<^verbatim>\<open>Start\<close>.  It looks the hash up under the read lock
  and releases it (lines 49 to 59); \<open>txExcise\<close> is what it does from there on with
  the pointer it found (lines 62 to 78): it writes \<^verbatim>\<open>UnstuckAt\<close>, takes the write lock,
  removes the record from both lists, deletes the key, releases the lock and
  publishes what the map then holds under the hash.
\<close>

definition txExcise :: "Time \<Rightarrow> Hash \<Rightarrow> ref \<Rightarrow> QueuedPool \<Rightarrow> QueuedPool" where
  "txExcise now txHash tx q =
     (let q1 = q\<lparr> mem := (mem q)(tx := (mem q tx)\<lparr> UnstuckAt := now \<rparr>) \<rparr>;
          q2 = q1\<lparr> AscTxsByGasPrice := Remove (AscTxsByGasPrice q1) tx \<rparr>;
          q3 = q2\<lparr> DescTxsByGasPrice := Remove (DescTxsByGasPrice q2) tx \<rparr>;
          q4 = q3\<lparr> Transactions := (Transactions q3)(txHash := None) \<rparr>;
          q5 = PublishRemoved (Transactions q4 txHash) q4
      in q5)"

definition txRemover :: "Time \<Rightarrow> Hash \<Rightarrow> QueuedPool \<Rightarrow> ref option \<times> QueuedPool" where
  "txRemover now txHash q =
     (case Transactions q txHash of
        None \<Rightarrow> (None, q)
      | Some tx \<Rightarrow> (Some tx, txExcise now txHash tx q))"

text \<open>The case \<^verbatim>\<open>req := <-q.AddTxChan\<close>; a nil \<^verbatim>\<open>req.Tx\<close> panics at \<^verbatim>\<open>tx.Hash\<close>.\<close>

definition handleAdd :: "Time \<Rightarrow> ref option \<Rightarrow> QueuedPool \<Rightarrow> panic + (bool \<times> QueuedPool)" where
  "handleAdd now req q =
     (case req of
        None \<Rightarrow> Inl NilDereference
      | Some tx \<Rightarrow>
          if Transactions q (Hash (mem q tx)) \<noteq> None then Inr (False, q)
          else
            let q1 = q\<lparr> mem := (mem q)(tx := (mem q tx)\<lparr> QueuedAt := now, Pool := ''queued'' \<rparr>) \<rparr>;
                q2 = q1\<lparr> Transactions := (Transactions q1)(Hash (mem q1 tx) \<mapsto> tx) \<rparr>;
                q3 = q2\<lparr> AscTxsByGasPrice := Insert (mem q2) (AscTxsByGasPrice q2) tx \<rparr>;
                q4 = q3\<lparr> DescTxsByGasPrice := Insert (mem q3) (DescTxsByGasPrice q3) tx \<rparr>;
                q5 = PublishAdded (Some tx) q4
            in Inr (True, q5))"

text \<open>The case \<^verbatim>\<open>req := <-q.RemoveTxChan\<close>.\<close>

definition handleRemove :: "Time \<Rightarrow> Hash \<Rightarrow> QueuedPool \<Rightarrow> ref option \<times> QueuedPool" where
  "handleRemove now h q = txRemover now h q"

text \<open>
  The case \<^verbatim>\<open>req := <-q.RemoveTxsChan\<close>: the two guards, then the latch is set and
  the goroutine started.
\<close>

definition handleRemoveTxs :: "TxPoolContent \<Rightarrow> TxPoolContent \<Rightarrow> QueuedPool \<Rightarrow> prune_reply \<times> QueuedPool" where
  "handleRemoveTxs pending queued q =
     (if IsPruning q then (PRUNING, q)
      else if TxList_len (DescTxsByGasPrice q) = 0 then (EMPTY, q)
      else (SCHEDULED, q\<lparr> IsPruning := True, job := Spawned pending queued \<rparr>))"

definition handleExists :: "Hash \<Rightarrow> QueuedPool \<Rightarrow> bool" where
  "handleExists h q = (Transactions q h \<noteq> None)"

definition handleGet :: "Hash \<Rightarrow> QueuedPool \<Rightarrow> ref option" where
  "handleGet h q = Transactions q h"

definition handleCount :: "QueuedPool \<Rightarrow> 64 word" where
  "handleCount q = of_nat (TxList_len (AscTxsByGasPrice q))"

text \<open>
  The case \<^verbatim>\<open>req := <-q.ListTxsChan\<close>.  The reply is nil (\<open>None\<close>) for an empty list;
  otherwise \<^verbatim>\<open>make\<close> allocates a new slice, \<^verbatim>\<open>copy\<close> fills it, and the reply is
  its address, here its index in \<open>slices\<close>.
\<close>

definition handleList :: "order \<Rightarrow> QueuedPool \<Rightarrow> nat option \<times> QueuedPool" where
  "handleList ord q =
     (if ord = ASC then
        (if TxList_len (AscTxsByGasPrice q) = 0 then (None, q)
         else (Some (length (slices q)),
               q\<lparr> slices := slices q @ [take (TxList_len (AscTxsByGasPrice q)) (TxList_get (AscTxsByGasPrice q))] \<rparr>))
      else
        (if TxList_len (DescTxsByGasPrice q) = 0 then (None, q)
         else (Some (length (slices q)),
               q\<lparr> slices := slices q @ [take (TxList_len (DescTxsByGasPrice q)) (TxList_get (DescTxsByGasPrice q))] \<rparr>)))"

text \<open>What a caller reads through a slice it was handed.\<close>

definition deref :: "QueuedPool \<Rightarrow> nat option \<Rightarrow> ref list option" where
  "deref q s = (case s of None \<Rightarrow> None | Some a \<Rightarrow> if a < length (slices q) then Some (slices q ! a) else None)"

section \<open>The prune goroutine\<close>

text \<open>
  Modelled from the spec: \<^verbatim>\<open>IsPresentInCurrentPool\<close> and \<^verbatim>\<open>IsUnstuck\<close> are
  declared outside the given sources.  The first says whether the hash is
  present in an upstream snapshot; the second asks the RPC adapter for the
  sender's account nonce and answers true iff it equals the record's nonce, a
  network failure being an error (spec sections 3 and 6).
\<close>

definition IsPresentInCurrentPool :: "(ref \<Rightarrow> MemPoolTx) \<Rightarrow> TxPoolContent \<Rightarrow> Hash \<Rightarrow> bool" where
  "IsPresentInCurrentPool m txs h =
     list_ex (\<lambda>(from, byNonce). list_ex (\<lambda>(nonce, tx). Hash (m tx) = h) byNonce) txs"

definition IsUnstuck :: "(Address \<Rightarrow> rpc_error + 64 word) \<Rightarrow> MemPoolTx \<Rightarrow> rpc_error + bool" where
  "IsUnstuck rpc tx =
     (case rpc (From tx) of Inl err \<Rightarrow> Inl err | Inr accountNonce \<Rightarrow> Inr (Nonce tx = accountNonce))"

text \<open>The job submitted to the worker pool for one snapshotted transaction.\<close>

definition classify ::
  "(ref \<Rightarrow> MemPoolTx) \<Rightarrow> TxPoolContent \<Rightarrow> TxPoolContent \<Rightarrow> (Address \<Rightarrow> rpc_error + 64 word) \<Rightarrow> ref \<Rightarrow> TxStatus" where
  "classify m pending queued rpc tx =
     (if IsPresentInCurrentPool m queued (Hash (m tx)) then \<lparr> StatusHash = Hash (m tx), Status = STUCK \<rparr>
      else if IsPresentInCurrentPool m pending (Hash (m tx)) then \<lparr> StatusHash = Hash (m tx), Status = UNSTUCK \<rparr>
      else
        (case IsUnstuck rpc (m tx) of
           Inl err \<Rightarrow> \<lparr> StatusHash = Hash (m tx), Status = STUCK \<rparr>
         | Inr yes \<Rightarrow>
             if yes then \<lparr> StatusHash = Hash (m tx), Status = UNSTUCK \<rparr>
             else \<lparr> StatusHash = Hash (m tx), Status = STUCK \<rparr>))"

text \<open>
  The goroutine takes its snapshot of the descending list and submits one job
  per entry; \<open>sched\<close> is the order in which the workers' results reach the
  channel.  The jobs read only the hash, the sender and the nonce of a record,
  which no code of the pool writes, so they are evaluated on the snapshot.
\<close>

definition pruneSnapshot ::
  "(Address \<Rightarrow> rpc_error + 64 word) \<Rightarrow> (TxStatus list \<Rightarrow> TxStatus list) \<Rightarrow> QueuedPool \<Rightarrow> QueuedPool" where
  "pruneSnapshot rpc sched q =
     (case job q of
        Spawned pending queued \<Rightarrow>
          let txs = TxList_get (DescTxsByGasPrice q);
              txCount = length txs
          in q\<lparr> job := Collecting (sched (map (classify (mem q) pending queued rpc) txs)) 0 txCount \<rparr>
      | _ \<Rightarrow> q)"

text \<open>
  Modelled from the spec: the pending pool is outside the given sources; the
  core calls only its \<^verbatim>\<open>Add\<close> and ignores the result (spec section 6).  The log
  \<open>promoted\<close> keeps the records handed to it.
\<close>

definition PendingPool_Add :: "ref \<Rightarrow> QueuedPool \<Rightarrow> QueuedPool" where
  "PendingPool_Add tx q = q\<lparr> promoted := promoted q @ [tx] \<rparr>"

text \<open>
  After \<^verbatim>\<open>received++\<close>: the loop is left once \<^verbatim>\<open>received >= txCount\<close>, and the
  deferred function releases the latch.
\<close>

definition pruneReceived :: "TxStatus list \<Rightarrow> nat \<Rightarrow> nat \<Rightarrow> QueuedPool \<Rightarrow> QueuedPool" where
  "pruneReceived rest received txCount q =
     (if Suc received \<ge> txCount then q\<lparr> IsPruning := False, job := NoJob \<rparr>
      else q\<lparr> job := Collecting rest (Suc received) txCount \<rparr>)"

text \<open>
  One iteration of \<^verbatim>\<open>for v := range commChan\<close>, in the two steps the goroutine takes
  it in.  The goroutine calls the remover itself (line 224), beside the owning
  task, so the owning task can serve requests between the remover's lookup and
  its update.

  \<open>pruneLookup\<close> receives a result.  With no result in the channel the goroutine
  stays blocked.  A \<^verbatim>\<open>STUCK\<close> result ends the iteration at once.  For an \<^verbatim>\<open>UNSTUCK\<close>
  result the remover looks the hash up under the read lock: when it is absent the
  remover returns nil and the loop goes to the next iteration by \<^verbatim>\<open>continue\<close>,
  without counting the result; otherwise the goroutine holds the pointer.

  \<open>pruneExcise\<close> is the rest of the iteration with the pointer held: the second
  part of the remover, the hand-over to the pending pool, and the count.
\<close>

definition pruneLookup :: "QueuedPool \<Rightarrow> QueuedPool" where
  "pruneLookup q =
     (case job q of
        Collecting (v # rest) received txCount \<Rightarrow>
          if Status v = UNSTUCK then
            (case Transactions q (StatusHash v) of
               None \<Rightarrow> q\<lparr> job := Collecting rest received txCount \<rparr>
             | Some tx \<Rightarrow> q\<lparr> job := Removing rest received txCount (StatusHash v) tx \<rparr>)
          else pruneReceived rest received txCount q
      | _ \<Rightarrow> q)"

definition pruneExcise :: "Time \<Rightarrow> QueuedPool \<Rightarrow> QueuedPool" where
  "pruneExcise now q =
     (case job q of
        Removing rest received txCount txHash tx \<Rightarrow>
          pruneReceived rest received txCount (PendingPool_Add tx (txExcise now txHash tx q))
      | _ \<Rightarrow> q)"

text \<open>
  A whole iteration with nothing served in between: from the head of the loop,
  the lookup and then at once the rest.
\<close>

definition pruneCollect :: "Time \<Rightarrow> QueuedPool \<Rightarrow> QueuedPool" where
  "pruneCollect now q =
     (case job q of
        Collecting results received txCount \<Rightarrow> pruneExcise now (pruneLookup q)
      | _ \<Rightarrow> q)"

section \<open>Steps of the system\<close>

text \<open>
  One step is either one request served by the owning task or one step of the
  prune goroutine: taking the snapshot, receiving a result up to the remover's
  lookup, or the rest of the iteration from the remover's update on.  A run is
  any interleaving of them, so requests can be served while the goroutine holds
  a pointer it has looked up.  A request of the owning task is served as a
  whole.  A panic ends the run.
\<close>

datatype step =
  AddRequest Time "ref option"
| RemovedUnstuckTx Time Hash
| RemoveTxsFromQueuedPool TxPoolContent TxPoolContent
| ExistsRequest Hash
| GetRequest Hash
| CountRequest
| ListRequest order
| PruneSnapshot "Address \<Rightarrow> rpc_error + 64 word" "TxStatus list \<Rightarrow> TxStatus list"
| PruneLookup
| PruneExcise Time

fun exec :: "step \<Rightarrow> QueuedPool \<Rightarrow> panic + QueuedPool" where
  "exec (AddRequest now tx) q = (case handleAdd now tx q of Inl e \<Rightarrow> Inl e | Inr (r, q') \<Rightarrow> Inr q')"
| "exec (RemovedUnstuckTx now h) q = Inr (snd (handleRemove now h q))"
| "exec (RemoveTxsFromQueuedPool pending queued) q = Inr (snd (handleRemoveTxs pending queued q))"
| "exec (ExistsRequest h) q = Inr q"
| "exec (GetRequest h) q = Inr q"
| "exec CountRequest q = Inr q"
| "exec (ListRequest ord) q = Inr (snd (handleList ord q))"
| "exec (PruneSnapshot rpc sched) q = Inr (pruneSnapshot rpc sched q)"
| "exec PruneLookup q = Inr (pruneLookup q)"
| "exec (PruneExcise now) q = Inr (pruneExcise now q)"

fun run :: "step list \<Rightarrow> QueuedPool \<Rightarrow> panic + QueuedPool" where
  "run [] q = Inr q"
| "run (st # sts) q = (case exec st q of Inl e \<Rightarrow> Inl e | Inr q' \<Rightarrow> run sts q')"

section \<open>The methods callers use\<close>

definition Get :: "Hash \<Rightarrow> QueuedPool \<Rightarrow> ref option" where
  "Get hash q = handleGet hash q"

definition Exists :: "Hash \<Rightarrow> QueuedPool \<Rightarrow> bool" where
  "Exists hash q = handleExists hash q"

definition Count :: "QueuedPool \<Rightarrow> 64 word" where
  "Count q = handleCount q"

definition Add :: "Time \<Rightarrow> ref option \<Rightarrow> QueuedPool \<Rightarrow> panic + (bool \<times> QueuedPool)" where
  "Add now tx q = handleAdd now tx q"

definition QueuedPool_Remove :: "Time \<Rightarrow> Hash \<Rightarrow> QueuedPool \<Rightarrow> ref option \<times> QueuedPool" where
  "QueuedPool_Remove now txHash q = handleRemove now txHash q"

definition RemoveUnstuck :: "TxPoolContent \<Rightarrow> TxPoolContent \<Rightarrow> QueuedPool \<Rightarrow> prune_reply \<times> QueuedPool" where
  "RemoveUnstuck pending queued q = handleRemoveTxs pending queued q"

definition AscListTxs :: "QueuedPool \<Rightarrow> nat option \<times> QueuedPool" where
  "AscListTxs q = handleList ASC q"

definition DescListTxs :: "QueuedPool \<Rightarrow> nat option \<times> QueuedPool" where
  "DescListTxs q = handleList DESC q"

text \<open>
  The slice expression \<^verbatim>\<open>s[:x]\<close>: it panics unless \<^verbatim>\<open>x <= cap(s)\<close>.  A slice from
  the list handler has its capacity equal to its length, and nil has capacity 0.
\<close>

definition slice_to :: "ref list option \<Rightarrow> 64 word \<Rightarrow> panic + ref list option" where
  "slice_to s x =
     (case s of
        None \<Rightarrow> if unat x \<le> 0 then Inr None else Inl SliceBoundsOutOfRange
      | Some xs \<Rightarrow> if unat x \<le> length xs then Inr (Some (take (unat x) xs)) else Inl SliceBoundsOutOfRange)"

definition TopXWithHighGasPrice :: "64 word \<Rightarrow> QueuedPool \<Rightarrow> (panic + ref list option) \<times> QueuedPool" where
  "TopXWithHighGasPrice x q = (case DescListTxs q of (s, q') \<Rightarrow> (slice_to (deref q' s) x, q'))"

definition TopXWithLowGasPrice :: "64 word \<Rightarrow> QueuedPool \<Rightarrow> (panic + ref list option) \<times> QueuedPool" where
  "TopXWithLowGasPrice x q = (case AscListTxs q of (s, q') \<Rightarrow> (slice_to (deref q' s) x, q'))"

text \<open>
  Modelled from the spec: the predicates \<^verbatim>\<open>IsDuplicateOf\<close>, \<^verbatim>\<open>IsSentFrom\<close>,
  \<^verbatim>\<open>IsSentTo\<close>, \<^verbatim>\<open>IsQueuedForGTE\<close> and \<^verbatim>\<open>IsQueuedForLTE\<close> of \<^verbatim>\<open>MemPoolTx\<close> are
  declared outside the given sources (spec section 3): same sender and same
  nonce; address equality; the time since \<^verbatim>\<open>QueuedAt\<close> compared with a duration.
\<close>

definition IsDuplicateOf :: "MemPoolTx \<Rightarrow> MemPoolTx \<Rightarrow> bool" where
  "IsDuplicateOf tx other = (From tx = From other \<and> Nonce tx = Nonce other)"

definition IsSentFrom :: "MemPoolTx \<Rightarrow> Address \<Rightarrow> bool" where
  "IsSentFrom tx address = (From tx = address)"

definition IsSentTo :: "MemPoolTx \<Rightarrow> Address \<Rightarrow> bool" where
  "IsSentTo tx address = (To tx = address)"

definition IsQueuedForGTE :: "Time \<Rightarrow> MemPoolTx \<Rightarrow> int \<Rightarrow> bool" where
  "IsQueuedForGTE now tx x = (now - QueuedAt tx \<ge> x)"

definition IsQueuedForLTE :: "Time \<Rightarrow> MemPoolTx \<Rightarrow> int \<Rightarrow> bool" where
  "IsQueuedForLTE now tx x = (now - QueuedAt tx \<le> x)"

text \<open>
  The fan-out shared by the filtered queries: one job per transaction sends the
  transaction or nil to the channel, \<open>sched\<close> is the order in which the results
  arrive, and the caller keeps the non-nil ones among the first \<^verbatim>\<open>txCount\<close>.
\<close>

definition gather :: "(ref option list \<Rightarrow> ref option list) \<Rightarrow> (ref \<Rightarrow> bool) \<Rightarrow> ref list \<Rightarrow> ref list" where
  "gather sched P txs =
     List.map_filter (\<lambda>v. v) (take (length txs) (sched (map (\<lambda>tx. if P tx then Some tx else None) txs)))"

text \<open>
  The body that \<^verbatim>\<open>SentFrom\<close>, \<^verbatim>\<open>SentTo\<close>, \<^verbatim>\<open>OlderThanX\<close>, \<^verbatim>\<open>FresherThanX\<close> and, after its
  lookup of the target, \<^verbatim>\<open>DuplicateTxs\<close> repeat word for word, with the predicate
  each of them applies: nil when the list request replies nil, otherwise the
  gathered matches, a slice that is not nil even when nothing matches.
\<close>

definition filtered ::
  "(ref option list \<Rightarrow> ref option list) \<Rightarrow> (MemPoolTx \<Rightarrow> bool) \<Rightarrow> QueuedPool \<Rightarrow> ref list option \<times> QueuedPool" where
  "filtered sched P q =
     (case DescListTxs q of (s, q') \<Rightarrow>
        (case deref q' s of
           None \<Rightarrow> (None, q')
         | Some txs \<Rightarrow> (Some (gather sched (\<lambda>tx. P (mem q' tx)) txs), q')))"

definition DuplicateTxs ::
  "(ref option list \<Rightarrow> ref option list) \<Rightarrow> Hash \<Rightarrow> QueuedPool \<Rightarrow> ref list option \<times> QueuedPool" where
  "DuplicateTxs sched hash q =
     (case Get hash q of
        None \<Rightarrow> (None, q)
      | Some targetTx \<Rightarrow> filtered sched (\<lambda>tx. IsDuplicateOf tx (mem q targetTx)) q)"

definition SentFrom ::
  "(ref option list \<Rightarrow> ref option list) \<Rightarrow> Address \<Rightarrow> QueuedPool \<Rightarrow> ref list option \<times> QueuedPool" where
  "SentFrom sched address q = filtered sched (\<lambda>tx. IsSentFrom tx address) q"

definition SentTo ::
  "(ref option list \<Rightarrow> ref option list) \<Rightarrow> Address \<Rightarrow> QueuedPool \<Rightarrow> ref list option \<times> QueuedPool" where
  "SentTo sched address q = filtered sched (\<lambda>tx. IsSentTo tx address) q"

definition OlderThanX ::
  "(ref option list \<Rightarrow> ref option list) \<Rightarrow> Time \<Rightarrow> int \<Rightarrow> QueuedPool \<Rightarrow> ref list option \<times> QueuedPool" where
  "OlderThanX sched now x q = filtered sched (\<lambda>tx. IsQueuedForGTE now tx x) q"

definition FresherThanX ::
  "(ref option list \<Rightarrow> ref option list) \<Rightarrow> Time \<Rightarrow> int \<Rightarrow> QueuedPool \<Rightarrow> ref list option \<times> QueuedPool" where
  "FresherThanX sched now x q = filtered sched (\<lambda>tx. IsQueuedForLTE now tx x) q"

section \<open>Properties\<close>

text \<open>
  What the map and the two sorted lists must agree on (properties P1 and P2 of
  the spec): the same records, the same number of them, the ascending list
  sorted by gas price and the descending list its reverse.
\<close>

definition views_agree :: "QueuedPool \<Rightarrow> bool" where
  "views_agree q =
     (set (TxList_get (AscTxsByGasPrice q)) = ran (Transactions q) \<and>
      set (TxList_get (DescTxsByGasPrice q)) = ran (Transactions q) \<and>
      length (TxList_get (AscTxsByGasPrice q)) = card (dom (Transactions q)) \<and>
      length (TxList_get (DescTxsByGasPrice q)) = card (dom (Transactions q)) \<and>
      card (ran (Transactions q)) = card (dom (Transactions q)) \<and>
      sorted (map (\<lambda>tx. GasPrice (mem q tx)) (TxList_get (AscTxsByGasPrice q))) \<and>
      TxList_get (DescTxsByGasPrice q) = rev (TxList_get (AscTxsByGasPrice q)))"

text \<open>
  The invariant that carries the proofs.  It adds to the above that the lists keep
  their kind, that no record occurs twice, and that every record is stored
  under its own hash (I1 of the spec).  Every request of the owning task keeps
  it, and so does the goroutine as long as nothing is served inside its remover.
\<close>

definition pool_inv :: "QueuedPool \<Rightarrow> bool" where
  "pool_inv q =
     (AscTxsByGasPrice q = AscList (TxList_get (AscTxsByGasPrice q)) \<and>
      DescTxsByGasPrice q = DescList (rev (TxList_get (AscTxsByGasPrice q))) \<and>
      sorted (map (\<lambda>tx. GasPrice (mem q tx)) (TxList_get (AscTxsByGasPrice q))) \<and>
      distinct (TxList_get (AscTxsByGasPrice q)) \<and>
      ran (Transactions q) = set (TxList_get (AscTxsByGasPrice q)) \<and>
      (\<forall>h tx. Transactions q h = Some tx \<longrightarrow> Hash (mem q tx) = h))"

text \<open>
  The goroutine is not inside the remover; and the runs in which the rest of an
  iteration follows its lookup at once, nothing being served in between.
\<close>

definition steady :: "QueuedPool \<Rightarrow> bool" where
  "steady q = (case job q of Removing rest received txCount txHash tx \<Rightarrow> False | _ \<Rightarrow> True)"

fun serial :: "step list \<Rightarrow> bool" where
  "serial [] = True"
| "serial (PruneLookup # PruneExcise now # sts) = serial sts"
| "serial (PruneLookup # sts) = False"
| "serial (PruneExcise now # sts) = False"
| "serial (st # sts) = serial sts"


text \<open>Example data: three records with gas prices 10, 30 and 20.\<close>

definition zeroTx :: MemPoolTx where
  "zeroTx = \<lparr> Hash = 0, From = 0, To = 0, Nonce = 0, GasPrice = 0, QueuedAt = 0, PendingAt = 0,
              UnstuckAt = 0, Pool = [] \<rparr>"

definition mem3 :: "ref \<Rightarrow> MemPoolTx" where
  "mem3 r = (if r = 1 then zeroTx\<lparr> Hash := 0xa1, From := 0xA, Nonce := 5, GasPrice := 10 \<rparr>
             else if r = 2 then zeroTx\<lparr> Hash := 0xa2, From := 0xA, Nonce := 5, GasPrice := 30 \<rparr>
             else if r = 3 then zeroTx\<lparr> Hash := 0xa3, From := 0xB, Nonce := 7, GasPrice := 20 \<rparr>
             else zeroTx)"

text \<open>How many entry and exit messages a log of published messages holds.\<close>

definition entries :: "(topic \<times> MemPoolTx option) list \<Rightarrow> nat" where
  "entries evs = length (filter (\<lambda>ev. fst ev = EntryTopic) evs)"


text \<open>The example pool: the three records added at times 5, 6 and 7.\<close>

definition pool3 :: QueuedPool where
  "pool3 =
     (case run [AddRequest 5 (Some 1), AddRequest 6 (Some 2), AddRequest 7 (Some 3)] (NewQueuedPool mem3) of
        Inr q \<Rightarrow> q
      | Inl e \<Rightarrow> NewQueuedPool mem3)"








text \<open>The elements of a slice, nil having none.\<close>

definition elems :: "ref list option \<Rightarrow> ref list" where
  "elems s = (case s of None \<Rightarrow> [] | Some xs \<Rightarrow> xs)"

section \<open>Sorted lists\<close>

lemma split_while:
  "(\<forall>a\<in>set as. P a) \<Longrightarrow> (\<forall>b\<in>set bs. \<not> P b) \<Longrightarrow>
   takeWhile P (as @ bs) = as \<and> dropWhile P (as @ bs) = bs"
  by (induction as) (auto simp: takeWhile_eq_Nil_iff dropWhile_eq_self_iff intro: hd_in_set)

lemma dropWhile_above:
  "sorted (map g xs) \<Longrightarrow> b \<in> set (dropWhile (\<lambda>y. g y \<le> (c::nat)) xs) \<Longrightarrow> c < g b"
  by (induction xs) (auto split: if_splits)

lemma Insert_asc_sorted:
  assumes "sorted (map (\<lambda>y. GasPrice (m y)) xs)"
  shows "sorted (map (\<lambda>y. GasPrice (m y)) (TxList_get (Insert m (AscList xs) tx)))"
proof -
  define lo where "lo = takeWhile (\<lambda>y. GasPrice (m y) \<le> GasPrice (m tx)) xs"
  define hi where "hi = dropWhile (\<lambda>y. GasPrice (m y) \<le> GasPrice (m tx)) xs"
  have xs: "xs = lo @ hi" by (simp add: lo_def hi_def)
  have lo: "\<forall>a\<in>set lo. GasPrice (m a) \<le> GasPrice (m tx)"
    unfolding lo_def by (auto dest: set_takeWhileD)
  have hi: "\<forall>b\<in>set hi. GasPrice (m tx) < GasPrice (m b)"
    unfolding hi_def using dropWhile_above [OF assms] by blast
  have "sorted (map (\<lambda>y. GasPrice (m y)) (lo @ tx # hi))"
    using assms lo hi unfolding xs by (auto simp: sorted_append less_imp_le)
  then show ?thesis by (simp add: lo_def hi_def)
qed

lemma Insert_desc_rev:
  assumes "sorted (map (\<lambda>y. GasPrice (m y)) xs)"
  shows "Insert m (DescList (rev xs)) tx = DescList (rev (TxList_get (Insert m (AscList xs) tx)))"
proof -
  define lo where "lo = takeWhile (\<lambda>y. GasPrice (m y) \<le> GasPrice (m tx)) xs"
  define hi where "hi = dropWhile (\<lambda>y. GasPrice (m y) \<le> GasPrice (m tx)) xs"
  let ?Q = "\<lambda>y. GasPrice (m tx) < GasPrice (m y)"
  have xs: "rev xs = rev hi @ rev lo"
    by (simp add: lo_def hi_def flip: rev_append)
  have lo: "\<forall>a\<in>set (rev lo). \<not> ?Q a"
    unfolding lo_def by (auto dest: set_takeWhileD)
  have hi: "\<forall>b\<in>set (rev hi). ?Q b"
    unfolding hi_def using dropWhile_above [OF assms] by auto
  have "takeWhile ?Q (rev xs) = rev hi \<and> dropWhile ?Q (rev xs) = rev lo"
    unfolding xs by (rule split_while [OF hi lo])
  then have "Insert m (DescList (rev xs)) tx = DescList (rev (lo @ tx # hi))"
    by simp
  then show ?thesis by (simp add: lo_def hi_def)
qed

lemma Insert_asc_set: "set (TxList_get (Insert m (AscList xs) tx)) = insert tx (set xs)"
proof -
  have "set (takeWhile P xs) \<union> set (dropWhile P xs) = set xs" for P :: "ref \<Rightarrow> bool"
    by (metis set_append takeWhile_dropWhile_id)
  then show ?thesis by auto
qed

lemma Insert_asc_distinct:
  assumes d: "distinct xs" and n: "tx \<notin> set xs"
  shows "distinct (TxList_get (Insert m (AscList xs) tx))"
proof -
  let ?P = "\<lambda>y. GasPrice (m y) \<le> GasPrice (m tx)"
  have "distinct (takeWhile ?P xs @ dropWhile ?P xs)" using d by simp
  then have "distinct (takeWhile ?P xs) \<and> distinct (dropWhile ?P xs) \<and>
             set (takeWhile ?P xs) \<inter> set (dropWhile ?P xs) = {}"
    by (simp only: distinct_append)
  moreover have "tx \<notin> set (takeWhile ?P xs)" "tx \<notin> set (dropWhile ?P xs)"
    using n by (auto dest: set_takeWhileD set_dropWhileD)
  ultimately show ?thesis by auto
qed

lemma rev_remove1: "distinct xs \<Longrightarrow> remove1 x (rev xs) = rev (remove1 x xs)"
  by (induction xs) (auto simp: remove1_append remove1_idem)

lemma ran_delete:
  assumes I1: "\<forall>h tx. T h = Some tx \<longrightarrow> f tx = h" and h: "T h = Some tx"
  shows "ran (T(h := None)) = ran T - {tx}"
proof (rule set_eqI)
  fix x
  show "x \<in> ran (T(h := None)) \<longleftrightarrow> x \<in> ran T - {tx}"
  proof
    assume "x \<in> ran (T(h := None))"
    then obtain k where k: "k \<noteq> h" "T k = Some x"
      by (auto simp: ran_def split: if_splits)
    then have "f x = k" using I1 by blast
    moreover have "f tx = h" using I1 h by blast
    ultimately have "x \<noteq> tx" using k by auto
    then show "x \<in> ran T - {tx}" using k by (auto simp: ran_def)
  next
    assume "x \<in> ran T - {tx}"
    then obtain k where k: "T k = Some x" "x \<noteq> tx" by (auto simp: ran_def)
    then have "k \<noteq> h" using h by auto
    then show "x \<in> ran (T(h := None))" using k by (auto simp: ran_def)
  qed
qed


lemma Insert_cong:
  "(\<And>y. GasPrice (m' y) = GasPrice (m y)) \<Longrightarrow> Insert m' l tx = Insert m l tx"
  by (cases l) simp_all

lemma pool_inv_frame:
  "pool_inv q \<Longrightarrow> Transactions q' = Transactions q \<Longrightarrow>
   AscTxsByGasPrice q' = AscTxsByGasPrice q \<Longrightarrow>
   DescTxsByGasPrice q' = DescTxsByGasPrice q \<Longrightarrow> mem q' = mem q \<Longrightarrow>
   pool_inv q'"
  by (simp add: pool_inv_def)

lemma pool_invI:
  assumes "AscTxsByGasPrice q = AscList xs" "DescTxsByGasPrice q = DescList (rev xs)"
    "sorted (map (\<lambda>tx. GasPrice (mem q tx)) xs)" "distinct xs" "ran (Transactions q) = set xs"
    "\<And>h tx. Transactions q h = Some tx \<Longrightarrow> Hash (mem q tx) = h"
  shows "pool_inv q"
  using assms by (simp add: pool_inv_def)

lemma pool_invE:
  assumes "pool_inv q"
  obtains xs where "AscTxsByGasPrice q = AscList xs" "DescTxsByGasPrice q = DescList (rev xs)"
    "sorted (map (\<lambda>tx. GasPrice (mem q tx)) xs)" "distinct xs" "ran (Transactions q) = set xs"
    "\<And>h tx. Transactions q h = Some tx \<Longrightarrow> Hash (mem q tx) = h"
  by (rule that [of "TxList_get (AscTxsByGasPrice q)"]) (use assms in \<open>simp_all add: pool_inv_def\<close>)

lemma txRemover_absent: "Transactions q h = None \<Longrightarrow> txRemover now h q = (None, q)"
  by (simp add: txRemover_def)

lemma txRemover_present:
  "Transactions q h = Some tx \<Longrightarrow>
   txRemover now h q =
     (Some tx,
      q\<lparr> Transactions := (Transactions q)(h := None),
         AscTxsByGasPrice := Remove (AscTxsByGasPrice q) tx,
         DescTxsByGasPrice := Remove (DescTxsByGasPrice q) tx,
         mem := (mem q)(tx := (mem q tx)\<lparr> UnstuckAt := now \<rparr>),
         published := published q @ [(ExitTopic, None)] \<rparr>)"
  by (simp add: txRemover_def txExcise_def PublishRemoved_def Let_def)

lemma txRemover_inv:
  assumes inv: "pool_inv q"
  shows "pool_inv (snd (txRemover now h q))"
proof (cases "Transactions q h")
  case None
  then show ?thesis using inv by (simp add: txRemover_absent)
next
  case (Some tx)
  from inv obtain xs where xs: "AscTxsByGasPrice q = AscList xs" "DescTxsByGasPrice q = DescList (rev xs)"
    "sorted (map (\<lambda>tx. GasPrice (mem q tx)) xs)" "distinct xs" "ran (Transactions q) = set xs"
    and I1: "\<And>h tx. Transactions q h = Some tx \<Longrightarrow> Hash (mem q tx) = h"
    by (rule pool_invE) blast
  let ?m = "(mem q)(tx := (mem q tx)\<lparr> UnstuckAt := now \<rparr>)"
  have gp: "(\<lambda>y. GasPrice (?m y)) = (\<lambda>y. GasPrice (mem q y))" by (rule ext) simp
  have hs: "Hash (?m y) = Hash (mem q y)" for y by simp
  have "ran ((Transactions q)(h := None)) = ran (Transactions q) - {tx}"
    using I1 Some by (intro ran_delete [where f = "\<lambda>tx. Hash (mem q tx)"]) auto
  then have rn: "ran ((Transactions q)(h := None)) = set (remove1 tx xs)"
    using xs by (simp add: set_remove1_eq)
  show ?thesis
    unfolding txRemover_present [OF Some] snd_conv
  proof (rule pool_invI [where xs = "remove1 tx xs"])
    fix k p
    assume "Transactions (q\<lparr> Transactions := (Transactions q)(h := None),
         AscTxsByGasPrice := Remove (AscTxsByGasPrice q) tx,
         DescTxsByGasPrice := Remove (DescTxsByGasPrice q) tx,
         mem := ?m, published := published q @ [(ExitTopic, None)] \<rparr>) k = Some p"
    then have "Transactions q k = Some p" by (simp split: if_splits)
    then have "Hash (mem q p) = k" by (rule I1)
    then show "Hash (mem (q\<lparr> Transactions := (Transactions q)(h := None),
         AscTxsByGasPrice := Remove (AscTxsByGasPrice q) tx,
         DescTxsByGasPrice := Remove (DescTxsByGasPrice q) tx,
         mem := ?m, published := published q @ [(ExitTopic, None)] \<rparr>) p) = k"
      by (simp del: fun_upd_apply add: hs)
  qed (use xs rn in \<open>simp_all add: gp rev_remove1 sorted_map_remove1 del: fun_upd_apply\<close>)
qed


section \<open>The invariant\<close>

lemma handleAdd_nil: "handleAdd now None q = Inl NilDereference"
  by (simp add: handleAdd_def)

lemma handleAdd_duplicate:
  "Transactions q (Hash (mem q tx)) \<noteq> None \<Longrightarrow> handleAdd now (Some tx) q = Inr (False, q)"
  by (simp add: handleAdd_def)

lemma handleAdd_fresh:
  "Transactions q (Hash (mem q tx)) = None \<Longrightarrow>
   handleAdd now (Some tx) q =
     Inr (True,
       q\<lparr> mem := (mem q)(tx := (mem q tx)\<lparr> QueuedAt := now, Pool := ''queued'' \<rparr>),
          Transactions := (Transactions q)(Hash (mem q tx) \<mapsto> tx),
          AscTxsByGasPrice := Insert (mem q) (AscTxsByGasPrice q) tx,
          DescTxsByGasPrice := Insert (mem q) (DescTxsByGasPrice q) tx,
          published := published q @ [(EntryTopic, Some ((mem q tx)\<lparr> QueuedAt := now, Pool := ''queued'' \<rparr>))] \<rparr>)"
proof -
  let ?m = "(mem q)(tx := (mem q tx)\<lparr> QueuedAt := now, Pool := ''queued'' \<rparr>)"
  assume "Transactions q (Hash (mem q tx)) = None"
  moreover have "Insert ?m l tx = Insert (mem q) l tx" for l
    by (rule Insert_cong) simp
  ultimately show ?thesis
    by (simp add: handleAdd_def PublishAdded_def Let_def)
qed

lemma handleAdd_inv:
  assumes inv: "pool_inv q" and run: "handleAdd now req q = Inr (r, q')"
  shows "pool_inv q'"
proof (cases req)
  case None
  then show ?thesis using run by (simp add: handleAdd_nil)
next
  case (Some tx)
  show ?thesis
  proof (cases "Transactions q (Hash (mem q tx))")
    case present: (Some other)
    then show ?thesis using inv run Some by (simp add: handleAdd_duplicate)
  next
    case None
    from inv obtain xs where xs: "AscTxsByGasPrice q = AscList xs" "DescTxsByGasPrice q = DescList (rev xs)"
      "sorted (map (\<lambda>tx. GasPrice (mem q tx)) xs)" "distinct xs" "ran (Transactions q) = set xs"
      and I1: "\<And>h tx. Transactions q h = Some tx \<Longrightarrow> Hash (mem q tx) = h"
      by (rule pool_invE) blast
    let ?m = "(mem q)(tx := (mem q tx)\<lparr> QueuedAt := now, Pool := ''queued'' \<rparr>)"
    let ?ys = "TxList_get (Insert (mem q) (AscList xs) tx)"
    have gp: "(\<lambda>y. GasPrice (?m y)) = (\<lambda>y. GasPrice (mem q y))" by (rule ext) simp
    have hs: "Hash (?m y) = Hash (mem q y)" for y by simp
    have new: "tx \<notin> set xs"
    proof
      assume "tx \<in> set xs"
      then obtain h where "Transactions q h = Some tx" using xs(5) by (auto simp: ran_def)
      then show False using I1 None by fastforce
    qed
    have asc: "Insert (mem q) (AscList xs) tx = AscList ?ys" by simp
    have q': "q' = q\<lparr> mem := ?m,
          Transactions := (Transactions q)(Hash (mem q tx) \<mapsto> tx),
          AscTxsByGasPrice := Insert (mem q) (AscTxsByGasPrice q) tx,
          DescTxsByGasPrice := Insert (mem q) (DescTxsByGasPrice q) tx,
          published := published q @ [(EntryTopic, Some ((mem q tx)\<lparr> QueuedAt := now, Pool := ''queued'' \<rparr>))] \<rparr>"
      using run Some handleAdd_fresh [OF None, of now] by simp
    show ?thesis
      unfolding q'
    proof (rule pool_invI [where xs = ?ys])
      fix k p
      assume "Transactions (q\<lparr> mem := ?m,
          Transactions := (Transactions q)(Hash (mem q tx) \<mapsto> tx),
          AscTxsByGasPrice := Insert (mem q) (AscTxsByGasPrice q) tx,
          DescTxsByGasPrice := Insert (mem q) (DescTxsByGasPrice q) tx,
          published := published q @ [(EntryTopic, Some ((mem q tx)\<lparr> QueuedAt := now, Pool := ''queued'' \<rparr>))] \<rparr>) k = Some p"
      then have "(k = Hash (mem q tx) \<and> p = tx) \<or> Transactions q k = Some p"
        by (simp split: if_splits)
      then have "Hash (mem q p) = k" using I1 by auto
      then show "Hash (mem (q\<lparr> mem := ?m,
          Transactions := (Transactions q)(Hash (mem q tx) \<mapsto> tx),
          AscTxsByGasPrice := Insert (mem q) (AscTxsByGasPrice q) tx,
          DescTxsByGasPrice := Insert (mem q) (DescTxsByGasPrice q) tx,
          published := published q @ [(EntryTopic, Some ((mem q tx)\<lparr> QueuedAt := now, Pool := ''queued'' \<rparr>))] \<rparr>) p) = k"
        by (simp del: fun_upd_apply add: hs)
    next
      show "ran (Transactions (q\<lparr> mem := ?m,
          Transactions := (Transactions q)(Hash (mem q tx) \<mapsto> tx),
          AscTxsByGasPrice := Insert (mem q) (AscTxsByGasPrice q) tx,
          DescTxsByGasPrice := Insert (mem q) (DescTxsByGasPrice q) tx,
          published := published q @ [(EntryTopic, Some ((mem q tx)\<lparr> QueuedAt := now, Pool := ''queued'' \<rparr>))] \<rparr>)) = set ?ys"
        using None xs(5) by (simp add: Insert_asc_set del: Insert.simps)
    next
      show "distinct ?ys" using xs(4) new by (rule Insert_asc_distinct)
    next
      show "AscTxsByGasPrice (q\<lparr> mem := ?m,
          Transactions := (Transactions q)(Hash (mem q tx) \<mapsto> tx),
          AscTxsByGasPrice := Insert (mem q) (AscTxsByGasPrice q) tx,
          DescTxsByGasPrice := Insert (mem q) (DescTxsByGasPrice q) tx,
          published := published q @ [(EntryTopic, Some ((mem q tx)\<lparr> QueuedAt := now, Pool := ''queued'' \<rparr>))] \<rparr>) = AscList ?ys"
        using xs(1) by simp
    qed (use xs in \<open>simp_all add: gp Insert_desc_rev Insert_asc_sorted del: fun_upd_apply Insert.simps\<close>)
  qed
qed

lemma pool_inv_views:
  assumes "pool_inv q"
  shows "views_agree q"
proof -
  from assms obtain xs where xs: "AscTxsByGasPrice q = AscList xs" "DescTxsByGasPrice q = DescList (rev xs)"
      "sorted (map (\<lambda>tx. GasPrice (mem q tx)) xs)" "distinct xs" "ran (Transactions q) = set xs"
      and I1: "\<And>h tx. Transactions q h = Some tx \<Longrightarrow> Hash (mem q tx) = h"
    by (rule pool_invE) blast
  have "dom (Transactions q) = (\<lambda>tx. Hash (mem q tx)) ` ran (Transactions q)"
    using I1 by (force simp: ran_def dom_def image_iff)
  moreover have "inj_on (\<lambda>tx. Hash (mem q tx)) (ran (Transactions q))"
    using I1 by (auto simp: inj_on_def ran_def)
  ultimately have "card (dom (Transactions q)) = card (ran (Transactions q))"
    by (simp add: card_image)
  moreover have "card (set xs) = length xs" using xs(4) by (rule distinct_card)
  ultimately show ?thesis using xs by (simp add: views_agree_def)
qed


lemma pool_inv_new: "pool_inv (NewQueuedPool m)"
  by (simp add: pool_inv_def NewQueuedPool_def)

lemma handleRemoveTxs_inv: "pool_inv q \<Longrightarrow> pool_inv (snd (handleRemoveTxs pending queued q))"
  by (erule pool_inv_frame) (simp_all add: handleRemoveTxs_def)

lemma handleList_inv: "pool_inv q \<Longrightarrow> pool_inv (snd (handleList ord q))"
  by (erule pool_inv_frame) (simp_all add: handleList_def)

lemma pruneSnapshot_inv: "pool_inv q \<Longrightarrow> pool_inv (pruneSnapshot rpc sched q)"
  by (erule pool_inv_frame) (simp_all add: pruneSnapshot_def Let_def split: prune_job.splits)

lemma pruneReceived_inv: "pool_inv q \<Longrightarrow> pool_inv (pruneReceived rest received txCount q)"
  by (erule pool_inv_frame) (simp_all add: pruneReceived_def)

lemma PendingPool_Add_inv: "pool_inv q \<Longrightarrow> pool_inv (PendingPool_Add tx q)"
  by (erule pool_inv_frame) (simp_all add: PendingPool_Add_def)

lemma job_update_inv: "pool_inv q \<Longrightarrow> pool_inv (q\<lparr> job := j \<rparr>)"
  by (erule pool_inv_frame) simp_all

lemma txExcise_eq:
  "txExcise now h tx q =
     q\<lparr> Transactions := (Transactions q)(h := None),
        AscTxsByGasPrice := Remove (AscTxsByGasPrice q) tx,
        DescTxsByGasPrice := Remove (DescTxsByGasPrice q) tx,
        mem := (mem q)(tx := (mem q tx)\<lparr> UnstuckAt := now \<rparr>),
        published := published q @ [(ExitTopic, None)] \<rparr>"
  by (simp add: txExcise_def PublishRemoved_def Let_def)

lemma pruneCollect_stuck:
  "job q = Collecting (v # rest) r N \<Longrightarrow> Status v \<noteq> UNSTUCK \<Longrightarrow>
   pruneCollect now q = pruneReceived rest r N q"
  by (simp add: pruneCollect_def pruneLookup_def pruneExcise_def pruneReceived_def)

lemma pruneCollect_absent:
  "job q = Collecting (v # rest) r N \<Longrightarrow> Status v = UNSTUCK \<Longrightarrow>
   Transactions q (StatusHash v) = None \<Longrightarrow>
   pruneCollect now q = q\<lparr> job := Collecting rest r N \<rparr>"
  by (simp add: pruneCollect_def pruneLookup_def pruneExcise_def)

lemma pruneCollect_present:
  "job q = Collecting (v # rest) r N \<Longrightarrow> Status v = UNSTUCK \<Longrightarrow>
   Transactions q (StatusHash v) = Some tx \<Longrightarrow>
   pruneCollect now q =
     pruneReceived rest r N (PendingPool_Add tx (snd (txRemover now (StatusHash v) q)))"
  by (simp add: pruneCollect_def pruneLookup_def pruneExcise_def txRemover_def txExcise_eq
      pruneReceived_def PendingPool_Add_def)

lemma pruneCollect_blocked: "job q = Collecting [] r N \<Longrightarrow> pruneCollect now q = q"
  by (simp add: pruneCollect_def pruneLookup_def pruneExcise_def)

lemma pruneCollect_inv:
  assumes "pool_inv q"
  shows "pool_inv (pruneCollect now q)"
proof (cases "job q")
  case (Collecting results received txCount)
  show ?thesis
  proof (cases results)
    case Nil
    then show ?thesis using assms Collecting by (simp add: pruneCollect_blocked)
  next
    case (Cons v rest)
    then have j: "job q = Collecting (v # rest) received txCount" using Collecting by simp
    show ?thesis
    proof (cases "Status v = UNSTUCK")
      case False
      then show ?thesis using assms by (simp add: pruneCollect_stuck [OF j] pruneReceived_inv)
    next
      case True
      show ?thesis
      proof (cases "Transactions q (StatusHash v)")
        case None
        then show ?thesis
          using assms True by (simp add: pruneCollect_absent [OF j] job_update_inv)
      next
        case (Some tx)
        have "pool_inv (snd (txRemover now (StatusHash v) q))"
          using assms by (rule txRemover_inv)
        then show ?thesis
          using True Some by (simp add: pruneCollect_present [OF j] pruneReceived_inv PendingPool_Add_inv)
      qed
    qed
  qed
next
  case NoJob
  then show ?thesis using assms by (simp add: pruneCollect_def)
next
  case (Spawned pending queued)
  then show ?thesis using assms by (simp add: pruneCollect_def)
next
  case (Removing rest received txCount h tx)
  then show ?thesis using assms by (simp add: pruneCollect_def)
qed

text \<open>
  Runs in which the goroutine is never interrupted inside the remover keep the
  invariant: every request of the owning task keeps it, and so does a whole
  iteration of the collector.
\<close>

lemma txRemover_job: "job (snd (txRemover now h q)) = job q"
  by (cases "Transactions q h") (simp_all add: txRemover_absent txRemover_present)

lemma handleAdd_job: "handleAdd now req q = Inr (r, q') \<Longrightarrow> job q' = job q"
  by (auto simp: handleAdd_def PublishAdded_def Let_def split: option.splits if_splits)

lemma pruneCollect_steady: "steady q \<Longrightarrow> steady (pruneCollect now q)"
proof (cases "job q")
  case (Collecting results received txCount)
  assume "steady q"
  show ?thesis
  proof (cases results)
    case Nil
    then show ?thesis using Collecting by (simp add: pruneCollect_blocked steady_def)
  next
    case (Cons v rest)
    then have j: "job q = Collecting (v # rest) received txCount" using Collecting by simp
    show ?thesis
    proof (cases "Status v = UNSTUCK")
      case False
      then show ?thesis by (simp add: pruneCollect_stuck [OF j] pruneReceived_def steady_def)
    next
      case True
      then show ?thesis
        by (cases "Transactions q (StatusHash v)")
           (simp_all add: pruneCollect_absent [OF j] pruneCollect_present [OF j] pruneReceived_def
              steady_def)
    qed
  qed
qed (simp_all add: pruneCollect_def)

lemma pruneLookup_pruneExcise:
  "steady q \<Longrightarrow> pruneExcise now (pruneLookup q) = pruneCollect now q"
  by (cases "job q") (simp_all add: pruneCollect_def pruneLookup_def pruneExcise_def steady_def)

lemma exec_request_inv:
  assumes "pool_inv q" and "steady q" and "exec st q = Inr q'"
    and "st \<noteq> PruneLookup" and "\<And>now. st \<noteq> PruneExcise now"
  shows "pool_inv q' \<and> steady q'"
proof (cases st)
  case (AddRequest now tx)
  then obtain r where r: "handleAdd now tx q = Inr (r, q')"
    using assms(3) by (auto split: sum.splits)
  from assms(1) r have "pool_inv q'" by (rule handleAdd_inv)
  then show ?thesis using assms(2) handleAdd_job [OF r] by (simp add: steady_def)
next
  case (RemovedUnstuckTx now h)
  then show ?thesis
    using assms txRemover_inv [of q now h] txRemover_job [of now h q]
    by (auto simp: handleRemove_def steady_def)
next
  case (RemoveTxsFromQueuedPool pending queued)
  then show ?thesis
    using assms handleRemoveTxs_inv [of q pending queued]
    by (auto simp: handleRemoveTxs_def steady_def)
next
  case (ListRequest ord)
  then show ?thesis
    using assms handleList_inv [of q ord] by (auto simp: handleList_def steady_def)
next
  case (PruneSnapshot rpc sched)
  then show ?thesis
    using assms pruneSnapshot_inv [of q rpc sched]
    by (auto simp: pruneSnapshot_def Let_def steady_def split: prune_job.splits)
next
  case PruneLookup
  then show ?thesis using assms(4) by simp
next
  case (PruneExcise now)
  then show ?thesis using assms(5) by simp
qed (use assms in auto)

lemma exec_panic:
  "exec st q = Inl e \<Longrightarrow> \<exists>now. st = AddRequest now None"
  by (cases st) (auto simp: handleAdd_def split: sum.splits option.splits if_splits)

lemma serial_run_inv:
  "serial sts \<Longrightarrow> pool_inv q \<Longrightarrow> steady q \<Longrightarrow> run sts q = Inr q' \<Longrightarrow> pool_inv q' \<and> steady q'"
proof (induction sts arbitrary: q rule: length_induct)
  case (1 sts)
  show ?case
  proof (cases sts)
    case Nil
    then show ?thesis using "1.prems" by simp
  next
    case (Cons st rest)
    show ?thesis
    proof (cases "st = PruneLookup")
      case True
      then obtain now rest' where rest: "rest = PruneExcise now # rest'" and s': "serial rest'"
        using "1.prems"(1) Cons by (cases rest rule: serial.cases) auto
      have "run rest' (pruneCollect now q) = Inr q'"
        using "1.prems"(3,4) Cons True rest by (simp add: pruneLookup_pruneExcise)
      moreover have "pool_inv (pruneCollect now q)" "steady (pruneCollect now q)"
        using "1.prems"(2,3) by (simp_all add: pruneCollect_inv pruneCollect_steady)
      moreover have "length rest' < length sts" using Cons rest by simp
      ultimately show ?thesis using "1.IH" s' by blast
    next
      case False
      have nx: "st \<noteq> PruneExcise now" for now
        using "1.prems"(1) Cons by (cases st) auto
      have s': "serial rest" using "1.prems"(1) Cons False nx by (cases st) auto
      from "1.prems"(4) Cons obtain q1 where q1: "exec st q = Inr q1" "run rest q1 = Inr q'"
        by (cases "exec st q") simp_all
      have "pool_inv q1 \<and> steady q1"
        using "1.prems"(2,3) q1(1) False nx by (rule exec_request_inv)
      moreover have "length rest < length sts" using Cons by simp
      ultimately show ?thesis using "1.IH" s' q1(2) by blast
    qed
  qed
qed

lemma run_panic: "run sts q = Inl e \<Longrightarrow> \<exists>now. AddRequest now None \<in> set sts"
proof (induction sts arbitrary: q)
  case Nil
  then show ?case by simp
next
  case (Cons st sts)
  show ?case
  proof (cases "exec st q")
    case (Inl e')
    then obtain now where "st = AddRequest now None" using exec_panic by blast
    then show ?thesis by auto
  next
    case (Inr q1)
    then have "run sts q1 = Inl e" using Cons.prems by simp
    then obtain now where "AddRequest now None \<in> set sts" using Cons.IH by blast
    then show ?thesis by auto
  qed
qed

lemma serial_run_views_agree:
  assumes "serial sts"
  shows "case run sts (NewQueuedPool m) of
           Inr q \<Rightarrow> views_agree q
         | Inl e \<Rightarrow> \<exists>now. AddRequest now None \<in> set sts"
proof (cases "run sts (NewQueuedPool m)")
  case (Inl e)
  then show ?thesis using run_panic [of sts "NewQueuedPool m" e] by simp
next
  case (Inr q)
  have "steady (NewQueuedPool m)" by (simp add: steady_def NewQueuedPool_def)
  with assms pool_inv_new have "pool_inv q \<and> steady q" using Inr by (rule serial_run_inv)
  then show ?thesis using Inr by (simp add: pool_inv_views)
qed

section \<open>A request served inside the goroutine's remover\<close>










section \<open>The example pool\<close>

lemma run3: "run [AddRequest 5 (Some 1), AddRequest 6 (Some 2), AddRequest 7 (Some 3)] (NewQueuedPool mem3) = Inr pool3"
  by (simp add: pool3_def NewQueuedPool_def handleAdd_def mem3_def zeroTx_def PublishAdded_def Let_def)

lemma pool3_inv: "pool_inv pool3"
proof -
  have "serial [AddRequest 5 (Some 1), AddRequest 6 (Some 2), AddRequest 7 (Some 3)]" by simp
  moreover have "steady (NewQueuedPool mem3)" by (simp add: steady_def NewQueuedPool_def)
  ultimately show ?thesis using pool_inv_new run3 serial_run_inv by blast
qed

lemma pool3_fields:
  "Transactions pool3 = [0xa1 \<mapsto> 1, 0xa2 \<mapsto> 2, 0xa3 \<mapsto> 3]"
  "AscTxsByGasPrice pool3 = AscList [1, 3, 2]"
  "DescTxsByGasPrice pool3 = DescList [2, 3, 1]"
  "IsPruning pool3 = False"
  "job pool3 = NoJob"
  "slices pool3 = []"
  "promoted pool3 = []"
  "mem pool3 = mem3(1 := mem3 1\<lparr> QueuedAt := 5, Pool := ''queued'' \<rparr>,
                    2 := mem3 2\<lparr> QueuedAt := 6, Pool := ''queued'' \<rparr>,
                    3 := mem3 3\<lparr> QueuedAt := 7, Pool := ''queued'' \<rparr>)"
  "published pool3 =
     [(EntryTopic, Some (mem3 1\<lparr> QueuedAt := 5, Pool := ''queued'' \<rparr>)),
      (EntryTopic, Some (mem3 2\<lparr> QueuedAt := 6, Pool := ''queued'' \<rparr>)),
      (EntryTopic, Some (mem3 3\<lparr> QueuedAt := 7, Pool := ''queued'' \<rparr>))]"
  by (simp_all add: pool3_def NewQueuedPool_def handleAdd_def mem3_def zeroTx_def PublishAdded_def Let_def)

section \<open>Add\<close>

text \<open>
  C2.  \<^verbatim>\<open>Add(tx)\<close> replies true iff \<^verbatim>\<open>tx.Hash\<close> is not yet a key of the map.  When it
  replies true the record is stored under its hash, so that \<^verbatim>\<open>Exists\<close> holds
  afterwards, its \<^verbatim>\<open>QueuedAt\<close> is the current time, its \<^verbatim>\<open>Pool\<close> is "queued", and
  exactly one entry message is handed to the publisher.  When it replies false
  nothing at all changes.  A second \<^verbatim>\<open>Add\<close> of the same record, right after the
  first, replies false and changes nothing, so the pair publishes exactly the
  one entry message of a first call that replied true.
\<close>

theorem Add_true_iff_new:
  "\<exists>r q'. Add now (Some tx) q = Inr (r, q') \<and>
     (r \<longleftrightarrow> Transactions q (Hash (mem q tx)) = None) \<and>
     (r \<longrightarrow> Exists (Hash (mem q tx)) q' \<and> Get (Hash (mem q tx)) q' = Some tx \<and>
            Hash (mem q' tx) = Hash (mem q tx) \<and>
            QueuedAt (mem q' tx) = now \<and> Pool (mem q' tx) = ''queued'' \<and>
            published q' = published q @ [(EntryTopic, Some (mem q' tx))] \<and>
            entries (published q') = entries (published q) + 1) \<and>
     (\<not> r \<longrightarrow> q' = q) \<and>
     Add now' (Some tx) q' = Inr (False, q')"
proof (cases "Transactions q (Hash (mem q tx))")
  case None
  let ?q' = "q\<lparr> mem := (mem q)(tx := (mem q tx)\<lparr> QueuedAt := now, Pool := ''queued'' \<rparr>),
          Transactions := (Transactions q)(Hash (mem q tx) \<mapsto> tx),
          AscTxsByGasPrice := Insert (mem q) (AscTxsByGasPrice q) tx,
          DescTxsByGasPrice := Insert (mem q) (DescTxsByGasPrice q) tx,
          published := published q @ [(EntryTopic, Some ((mem q tx)\<lparr> QueuedAt := now, Pool := ''queued'' \<rparr>))] \<rparr>"
  have a: "Add now (Some tx) q = Inr (True, ?q')"
    unfolding Add_def by (rule handleAdd_fresh [OF None])
  have "Transactions ?q' (Hash (mem ?q' tx)) \<noteq> None" by simp
  then have b: "Add now' (Some tx) ?q' = Inr (False, ?q')"
    unfolding Add_def by (rule handleAdd_duplicate)
  show ?thesis
    apply (rule exI [of _ True], rule exI [of _ ?q'])
    using None a b by (simp add: Exists_def Get_def handleExists_def handleGet_def entries_def)
next
  case (Some other)
  then have "Add now (Some tx) q = Inr (False, q)" "Add now' (Some tx) q = Inr (False, q)"
    by (simp_all add: Add_def handleAdd_duplicate)
  then show ?thesis
    apply (intro exI [of _ False] exI [of _ q])
    using Some by simp
qed


theorem Add_true_iff_new_witness:
  "\<exists>q'. Add 5 (Some 1) (NewQueuedPool mem3) = Inr (True, q') \<and> Exists 0xa1 q' \<and>
        QueuedAt (mem q' 1) = 5 \<and> Pool (mem q' 1) = ''queued'' \<and>
        entries (published q') = 1 \<and> Add 6 (Some 1) q' = Inr (False, q')"
  using Add_true_iff_new [of 5 1 "NewQueuedPool mem3" 6]
  by (auto simp: NewQueuedPool_def mem3_def zeroTx_def entries_def)

section \<open>Remove\<close>



text \<open>
  C4.  What a successful \<^verbatim>\<open>Remove(h)\<close> hands to the publisher: the remover looks the
  hash up again after it has deleted it, so the one exit message carries nil
  and not the removed record, while the caller is replied the removed record.
\<close>

theorem Remove_publishes_nil:
  assumes "Transactions q h = Some tx"
  shows "fst (QueuedPool_Remove now h q) = Some tx \<and>
         published (snd (QueuedPool_Remove now h q)) = published q @ [(ExitTopic, None)] \<and>
         published (snd (QueuedPool_Remove now h q)) \<noteq>
           published q @ [(ExitTopic, Some (mem (snd (QueuedPool_Remove now h q)) tx))]"
  using assms by (simp add: QueuedPool_Remove_def handleRemove_def txRemover_present)

theorem Remove_publishes_nil_witness:
  "Transactions pool3 0xa3 = Some 3 \<and> fst (QueuedPool_Remove 9 0xa3 pool3) = Some 3 \<and>
   published (snd (QueuedPool_Remove 9 0xa3 pool3)) = published pool3 @ [(ExitTopic, None)]"
  using Remove_publishes_nil [of pool3 "0xa3" 3 9] by (simp add: pool3_fields)

section \<open>Prune: the request\<close>

text \<open>
  C5.  A prune request is answered \<^verbatim>\<open>PRUNING\<close> with the state untouched while the
  latch is set; otherwise \<^verbatim>\<open>EMPTY\<close> with the state untouched when the descending
  list is empty; otherwise the latch is set, the goroutine is started and the
  answer is \<^verbatim>\<open>SCHEDULED\<close>, nothing else changing, and a second request right after
  it is answered \<^verbatim>\<open>PRUNING\<close>.
\<close>

theorem RemoveUnstuck_guards:
  "(IsPruning q \<longrightarrow> RemoveUnstuck pending queued q = (PRUNING, q)) \<and>
   (\<not> IsPruning q \<and> TxList_get (DescTxsByGasPrice q) = [] \<longrightarrow>
      RemoveUnstuck pending queued q = (EMPTY, q)) \<and>
   (\<not> IsPruning q \<and> TxList_get (DescTxsByGasPrice q) \<noteq> [] \<longrightarrow>
      (\<exists>q'. RemoveUnstuck pending queued q = (SCHEDULED, q') \<and>
            q' = q\<lparr> IsPruning := True, job := Spawned pending queued \<rparr> \<and>
            RemoveUnstuck pending' queued' q' = (PRUNING, q')))"
  by (simp add: RemoveUnstuck_def handleRemoveTxs_def TxList_len_def)

theorem RemoveUnstuck_guards_witness:
  "RemoveUnstuck [] [] (NewQueuedPool mem3) = (EMPTY, NewQueuedPool mem3) \<and>
   fst (RemoveUnstuck [] [] pool3) = SCHEDULED \<and>
   fst (RemoveUnstuck [] [] (snd (RemoveUnstuck [] [] pool3))) = PRUNING \<and>
   snd (RemoveUnstuck [] [] (snd (RemoveUnstuck [] [] pool3))) = snd (RemoveUnstuck [] [] pool3)"
  using RemoveUnstuck_guards [of "NewQueuedPool mem3" "[]" "[]" "[]" "[]"]
    RemoveUnstuck_guards [of pool3 "[]" "[]" "[]" "[]"]
  by (auto simp: pool3_fields NewQueuedPool_def)

section \<open>Prune: the goroutine\<close>








lemma classify_stuck_iff:
  "Status (classify m pending queued rpc tx) = STUCK \<longleftrightarrow>
     IsPresentInCurrentPool m queued (Hash (m tx)) \<or>
     (\<not> IsPresentInCurrentPool m pending (Hash (m tx)) \<and> IsUnstuck rpc (m tx) \<noteq> Inr True)"
  by (auto simp: classify_def split: sum.splits)








section \<open>Queries\<close>

lemma map_filter_worker:
  "List.map_filter (\<lambda>v. v) (map (\<lambda>tx. if P tx then Some tx else None) txs) = filter P txs"
  by (induction txs) (simp_all add: List.map_filter_simps)

lemma mset_map_filter_id:
  "mset (List.map_filter (\<lambda>v. v) zs) = image_mset the (filter_mset (\<lambda>v. v \<noteq> None) (mset zs))"
  by (induction zs) (auto simp: List.map_filter_simps split: option.splits)

lemma gather_mset:
  assumes perm: "\<And>xs. mset (sched xs) = mset xs"
  shows "mset (gather sched P txs) = mset (filter P txs)"
proof -
  let ?jobs = "map (\<lambda>tx. if P tx then Some tx else None) txs"
  have "length (sched ?jobs) = length txs"
    using mset_eq_length [OF perm [of ?jobs]] by simp
  then have "gather sched P txs = List.map_filter (\<lambda>v. v) (sched ?jobs)"
    by (simp add: gather_def)
  then have "mset (gather sched P txs) = mset (List.map_filter (\<lambda>v. v) ?jobs)"
    by (simp only: mset_map_filter_id perm)
  then show ?thesis by (simp only: map_filter_worker)
qed

lemma handleList_DESC_nonempty:
  "TxList_get (DescTxsByGasPrice q) \<noteq> [] \<Longrightarrow>
   handleList DESC q = (Some (length (slices q)), q\<lparr> slices := slices q @ [TxList_get (DescTxsByGasPrice q)] \<rparr>)"
  by (simp add: handleList_def TxList_len_def)

lemma handleList_ASC_nonempty:
  "TxList_get (AscTxsByGasPrice q) \<noteq> [] \<Longrightarrow>
   handleList ASC q = (Some (length (slices q)), q\<lparr> slices := slices q @ [TxList_get (AscTxsByGasPrice q)] \<rparr>)"
  by (simp add: handleList_def TxList_len_def)

lemma handleList_DESC_empty:
  "TxList_get (DescTxsByGasPrice q) = [] \<Longrightarrow> handleList DESC q = (None, q)"
  by (simp add: handleList_def TxList_len_def)

lemma handleList_ASC_empty:
  "TxList_get (AscTxsByGasPrice q) = [] \<Longrightarrow> handleList ASC q = (None, q)"
  by (simp add: handleList_def TxList_len_def)

lemma filtered_nonempty:
  "TxList_get (DescTxsByGasPrice q) \<noteq> [] \<Longrightarrow>
   fst (filtered sched P q) = Some (gather sched (\<lambda>tx. P (mem q tx)) (TxList_get (DescTxsByGasPrice q)))"
  by (simp add: filtered_def DescListTxs_def handleList_DESC_nonempty deref_def)

lemma filtered_empty:
  "TxList_get (DescTxsByGasPrice q) = [] \<Longrightarrow> filtered sched P q = (None, q)"
  by (simp add: filtered_def DescListTxs_def handleList_DESC_empty deref_def)

text \<open>
  C7.  What \<^verbatim>\<open>DuplicateTxs(hash)\<close> returns for a hash stored in a pool that satisfies the
  invariant,
  whatever the order in which the workers deliver: the pool records with the
  sender and nonce of the target, each once, and the target is one of them.
  The function filters the whole list by \<^verbatim>\<open>IsDuplicateOf(targetTx)\<close> and nothing in
  it leaves the target out, although its comment says that the input is not
  included.  In the example pool records 1 and 2 share sender and nonce, and the
  query for either hash returns both.
\<close>

theorem DuplicateTxs_includes_target:
  assumes inv: "pool_inv q" and target: "Transactions q hash = Some targetTx"
    and perm: "\<And>xs. mset (sched xs) = mset xs"
  shows "\<exists>txs. fst (DuplicateTxs sched hash q) = Some txs \<and>
           mset txs = mset (filter (\<lambda>tx. From (mem q tx) = From (mem q targetTx) \<and>
                                          Nonce (mem q tx) = Nonce (mem q targetTx))
                                   (TxList_get (DescTxsByGasPrice q))) \<and>
           targetTx \<in> set txs"
proof -
  from inv obtain xs where xs: "DescTxsByGasPrice q = DescList (rev xs)" "ran (Transactions q) = set xs"
    by (rule pool_invE) blast
  have "targetTx \<in> ran (Transactions q)" using target by (auto simp: ran_def)
  then have t: "targetTx \<in> set (TxList_get (DescTxsByGasPrice q))" using xs by simp
  then have ne: "TxList_get (DescTxsByGasPrice q) \<noteq> []" by auto
  let ?P = "\<lambda>tx. From (mem q tx) = From (mem q targetTx) \<and> Nonce (mem q tx) = Nonce (mem q targetTx)"
  let ?txs = "gather sched ?P (TxList_get (DescTxsByGasPrice q))"
  have r: "fst (DuplicateTxs sched hash q) = Some ?txs"
    using target by (simp add: DuplicateTxs_def Get_def handleGet_def filtered_nonempty [OF ne] IsDuplicateOf_def)
  have m: "mset ?txs = mset (filter ?P (TxList_get (DescTxsByGasPrice q)))"
    using perm by (rule gather_mset)
  have "targetTx \<in> set (filter ?P (TxList_get (DescTxsByGasPrice q)))" using t by simp
  then have "targetTx \<in> set ?txs" using mset_eq_setD [OF m] by simp
  then show ?thesis using r m by blast
qed

theorem DuplicateTxs_includes_target_witness:
  "Transactions pool3 0xa1 = Some 1 \<and> fst (DuplicateTxs rev 0xa1 pool3) = Some [1, 2] \<and>
   fst (DuplicateTxs rev 0xa2 pool3) = Some [1, 2]"
proof -
  have perm: "mset (rev xs) = mset xs" for xs :: "ref option list" by simp
  have t: "Transactions pool3 0xa1 = Some 1" by (simp add: pool3_fields)
  have "fst (DuplicateTxs rev 0xa1 pool3) = Some [1, 2]" "fst (DuplicateTxs rev 0xa2 pool3) = Some [1, 2]"
    by (simp_all add: DuplicateTxs_def Get_def handleGet_def filtered_def DescListTxs_def handleList_def
        TxList_len_def deref_def gather_def IsDuplicateOf_def pool3_fields mem3_def zeroTx_def
        List.map_filter_simps)
  then show ?thesis using t DuplicateTxs_includes_target [OF pool3_inv t perm] by simp
qed


lemma le_Count:
  assumes "x \<le> Count q"
  shows "unat x \<le> length (TxList_get (AscTxsByGasPrice q))"
proof -
  have "unat x \<le> unat (of_nat (length (TxList_get (AscTxsByGasPrice q))) :: 64 word)"
    using assms by (simp add: Count_def handleCount_def TxList_len_def word_le_nat_alt)
  also have "\<dots> \<le> length (TxList_get (AscTxsByGasPrice q))"
    by (simp add: unat_of_nat)
  finally show ?thesis .
qed

lemma gt_Count:
  assumes "Count q < x" and "length (TxList_get (AscTxsByGasPrice q)) < 2 ^ 64"
  shows "length (TxList_get (AscTxsByGasPrice q)) < unat x"
proof -
  have "unat (of_nat (length (TxList_get (AscTxsByGasPrice q))) :: 64 word) < unat x"
    using assms(1) by (simp add: Count_def handleCount_def TxList_len_def word_less_nat_alt)
  moreover have "unat (of_nat (length (TxList_get (AscTxsByGasPrice q))) :: 64 word) =
                 length (TxList_get (AscTxsByGasPrice q))"
    using assms(2) by (simp add: unat_of_nat)
  ultimately show ?thesis by simp
qed

lemma TopXWithLowGasPrice_eq:
  "fst (TopXWithLowGasPrice x q) =
     (if TxList_get (AscTxsByGasPrice q) = [] then (if unat x \<le> 0 then Inr None else Inl SliceBoundsOutOfRange)
      else if unat x \<le> length (TxList_get (AscTxsByGasPrice q))
           then Inr (Some (take (unat x) (TxList_get (AscTxsByGasPrice q))))
           else Inl SliceBoundsOutOfRange)"
  by (simp add: TopXWithLowGasPrice_def AscListTxs_def handleList_def TxList_len_def deref_def slice_to_def)

lemma TopXWithHighGasPrice_eq:
  "fst (TopXWithHighGasPrice x q) =
     (if TxList_get (DescTxsByGasPrice q) = [] then (if unat x \<le> 0 then Inr None else Inl SliceBoundsOutOfRange)
      else if unat x \<le> length (TxList_get (DescTxsByGasPrice q))
           then Inr (Some (take (unat x) (TxList_get (DescTxsByGasPrice q))))
           else Inl SliceBoundsOutOfRange)"
  by (simp add: TopXWithHighGasPrice_def DescListTxs_def handleList_def TxList_len_def deref_def slice_to_def)

text \<open>
  C8.  In a state that satisfies the invariant, for \<open>x\<close> at most \<^verbatim>\<open>Count()\<close> both top-x queries return
  without a panic, \<^verbatim>\<open>TopXWithHighGasPrice(x)\<close> the first \<open>x\<close> entries of the
  descending list and \<^verbatim>\<open>TopXWithLowGasPrice(x)\<close> the first \<open>x\<close> entries of the
  ascending list.  For \<open>x\<close> above \<^verbatim>\<open>Count()\<close> (the length fitting 64 bits) the slice
  expression panics.
\<close>

theorem TopX_within_Count:
  assumes inv: "pool_inv q"
  shows "(x \<le> Count q \<longrightarrow>
            (\<exists>s. fst (TopXWithHighGasPrice x q) = Inr s \<and>
                 elems s = take (unat x) (TxList_get (DescTxsByGasPrice q))) \<and>
            (\<exists>s. fst (TopXWithLowGasPrice x q) = Inr s \<and>
                 elems s = take (unat x) (TxList_get (AscTxsByGasPrice q)))) \<and>
         (Count q < x \<and> length (TxList_get (AscTxsByGasPrice q)) < 2 ^ 64 \<longrightarrow>
            fst (TopXWithHighGasPrice x q) = Inl SliceBoundsOutOfRange \<and>
            fst (TopXWithLowGasPrice x q) = Inl SliceBoundsOutOfRange)"
proof -
  from inv obtain xs where xs: "AscTxsByGasPrice q = AscList xs" "DescTxsByGasPrice q = DescList (rev xs)"
    by (rule pool_invE) blast
  have within: "\<exists>s. fst (TopXWithHighGasPrice x q) = Inr s \<and>
                 elems s = take (unat x) (TxList_get (DescTxsByGasPrice q))"
      "\<exists>s. fst (TopXWithLowGasPrice x q) = Inr s \<and>
                 elems s = take (unat x) (TxList_get (AscTxsByGasPrice q))"
    if "x \<le> Count q"
    using le_Count [OF that] xs
    by (auto simp: TopXWithHighGasPrice_eq TopXWithLowGasPrice_eq elems_def)
  have beyond: "fst (TopXWithHighGasPrice x q) = Inl SliceBoundsOutOfRange"
      "fst (TopXWithLowGasPrice x q) = Inl SliceBoundsOutOfRange"
    if "Count q < x" "length (TxList_get (AscTxsByGasPrice q)) < 2 ^ 64"
    using gt_Count [OF that] xs
    by (auto simp: TopXWithHighGasPrice_eq TopXWithLowGasPrice_eq)
  show ?thesis using within beyond by blast
qed

theorem TopX_within_Count_witness:
  "(2 :: 64 word) \<le> Count pool3 \<and>
   fst (TopXWithHighGasPrice 2 pool3) = Inr (Some [2, 3]) \<and>
   fst (TopXWithLowGasPrice 2 pool3) = Inr (Some [1, 3]) \<and>
   Count pool3 < 4 \<and>
   fst (TopXWithHighGasPrice 4 pool3) = Inl SliceBoundsOutOfRange \<and>
   fst (TopXWithLowGasPrice 4 pool3) = Inl SliceBoundsOutOfRange"
proof -
  have c: "Count pool3 = 3"
    by (simp add: Count_def handleCount_def TxList_len_def pool3_fields)
  have l: "length (TxList_get (AscTxsByGasPrice pool3)) < 2 ^ 64" by (simp add: pool3_fields)
  have "(2 :: 64 word) \<le> Count pool3" "Count pool3 < 4" by (simp_all add: c)
  then show ?thesis
    using TopX_within_Count [OF pool3_inv, of 2] TopX_within_Count [OF pool3_inv, of 4] l
    by (auto simp: elems_def pool3_fields split: option.splits)
qed


lemma txRemover_slices: "slices (snd (txRemover now h q)) = slices q"
  by (cases "Transactions q h") (simp_all add: txRemover_absent txRemover_present)

lemma handleAdd_slices: "handleAdd now req q = Inr (r, q') \<Longrightarrow> slices q' = slices q"
  by (auto simp: handleAdd_def PublishAdded_def Let_def split: option.splits if_splits)

lemma pruneLookup_slices: "slices (pruneLookup q) = slices q"
  by (simp add: pruneLookup_def pruneReceived_def split: prune_job.splits list.splits option.splits)

lemma pruneExcise_slices: "slices (pruneExcise now q) = slices q"
  by (simp add: pruneExcise_def pruneReceived_def PendingPool_Add_def txExcise_eq split: prune_job.splits)

lemma exec_slices:
  assumes "exec st q = Inr q'"
  shows "\<exists>ys. slices q' = slices q @ ys"
proof (cases st)
  case (AddRequest now tx)
  then obtain r where "handleAdd now tx q = Inr (r, q')"
    using assms by (auto split: sum.splits)
  then show ?thesis by (simp add: handleAdd_slices)
next
  case (RemovedUnstuckTx now h)
  then show ?thesis using assms by (auto simp: handleRemove_def txRemover_slices)
next
  case (RemoveTxsFromQueuedPool pending queued)
  then show ?thesis using assms by (auto simp: handleRemoveTxs_def)
next
  case (ListRequest ord)
  then show ?thesis using assms by (auto simp: handleList_def)
next
  case (PruneSnapshot rpc sched)
  then show ?thesis using assms by (auto simp: pruneSnapshot_def Let_def split: prune_job.splits)
next
  case PruneLookup
  then show ?thesis using assms by (auto simp: pruneLookup_slices)
next
  case (PruneExcise now)
  then show ?thesis using assms by (auto simp: pruneExcise_slices)
qed (use assms in auto)

lemma run_slices: "run sts q = Inr q' \<Longrightarrow> \<exists>ys. slices q' = slices q @ ys"
proof (induction sts arbitrary: q)
  case Nil
  then show ?case by simp
next
  case (Cons st sts)
  from Cons.prems obtain q1 where q1: "exec st q = Inr q1" "run sts q1 = Inr q'"
    by (cases "exec st q") simp_all
  from exec_slices [OF q1(1)] Cons.IH [OF q1(2)] show ?case by auto
qed

lemma run_deref:
  assumes "run sts q = Inr q'" and "deref q s = Some xs"
  shows "deref q' s = Some xs"
proof -
  from assms(2) obtain a where a: "s = Some a" "a < length (slices q)" "slices q ! a = xs"
    by (auto simp: deref_def split: option.splits if_splits)
  from run_slices [OF assms(1)] obtain ys where "slices q' = slices q @ ys" by blast
  then show ?thesis using a by (simp add: deref_def nth_append)
qed

text \<open>
  C9.  \<^verbatim>\<open>AscListTxs\<close> and \<^verbatim>\<open>DescListTxs\<close> return nil for an empty list.  Otherwise
  they return a slice that was not allocated before and holds the entries of the
  list in its order; and whatever requests and prune steps follow, the slice
  keeps these entries.
\<close>

theorem ListTxs_fresh_copy:
  "(TxList_get (AscTxsByGasPrice q) = [] \<longrightarrow> AscListTxs q = (None, q)) \<and>
   (TxList_get (DescTxsByGasPrice q) = [] \<longrightarrow> DescListTxs q = (None, q)) \<and>
   (TxList_get (AscTxsByGasPrice q) \<noteq> [] \<longrightarrow>
      (\<exists>a q'. AscListTxs q = (Some a, q') \<and> deref q (Some a) = None \<and>
              deref q' (Some a) = Some (TxList_get (AscTxsByGasPrice q)) \<and>
              (\<forall>sts q''. run sts q' = Inr q'' \<longrightarrow>
                 deref q'' (Some a) = Some (TxList_get (AscTxsByGasPrice q))))) \<and>
   (TxList_get (DescTxsByGasPrice q) \<noteq> [] \<longrightarrow>
      (\<exists>a q'. DescListTxs q = (Some a, q') \<and> deref q (Some a) = None \<and>
              deref q' (Some a) = Some (TxList_get (DescTxsByGasPrice q)) \<and>
              (\<forall>sts q''. run sts q' = Inr q'' \<longrightarrow>
                 deref q'' (Some a) = Some (TxList_get (DescTxsByGasPrice q)))))"
proof -
  have asc: "\<exists>a q'. AscListTxs q = (Some a, q') \<and> deref q (Some a) = None \<and>
              deref q' (Some a) = Some (TxList_get (AscTxsByGasPrice q)) \<and>
              (\<forall>sts q''. run sts q' = Inr q'' \<longrightarrow>
                 deref q'' (Some a) = Some (TxList_get (AscTxsByGasPrice q)))"
    if ne: "TxList_get (AscTxsByGasPrice q) \<noteq> []"
  proof -
    let ?a = "length (slices q)"
    let ?q' = "q\<lparr> slices := slices q @ [TxList_get (AscTxsByGasPrice q)] \<rparr>"
    have 1: "AscListTxs q = (Some ?a, ?q')"
      unfolding AscListTxs_def using ne by (rule handleList_ASC_nonempty)
    have 2: "deref q (Some ?a) = None" by (simp add: deref_def)
    have 3: "deref ?q' (Some ?a) = Some (TxList_get (AscTxsByGasPrice q))" by (simp add: deref_def)
    have 4: "\<forall>sts q''. run sts ?q' = Inr q'' \<longrightarrow>
                 deref q'' (Some ?a) = Some (TxList_get (AscTxsByGasPrice q))"
      using run_deref [OF _ 3] by blast
    show ?thesis using 1 2 3 4 by blast
  qed
  have desc: "\<exists>a q'. DescListTxs q = (Some a, q') \<and> deref q (Some a) = None \<and>
              deref q' (Some a) = Some (TxList_get (DescTxsByGasPrice q)) \<and>
              (\<forall>sts q''. run sts q' = Inr q'' \<longrightarrow>
                 deref q'' (Some a) = Some (TxList_get (DescTxsByGasPrice q)))"
    if ne: "TxList_get (DescTxsByGasPrice q) \<noteq> []"
  proof -
    let ?a = "length (slices q)"
    let ?q' = "q\<lparr> slices := slices q @ [TxList_get (DescTxsByGasPrice q)] \<rparr>"
    have 1: "DescListTxs q = (Some ?a, ?q')"
      unfolding DescListTxs_def using ne by (rule handleList_DESC_nonempty)
    have 2: "deref q (Some ?a) = None" by (simp add: deref_def)
    have 3: "deref ?q' (Some ?a) = Some (TxList_get (DescTxsByGasPrice q))" by (simp add: deref_def)
    have 4: "\<forall>sts q''. run sts ?q' = Inr q'' \<longrightarrow>
                 deref q'' (Some ?a) = Some (TxList_get (DescTxsByGasPrice q))"
      using run_deref [OF _ 3] by blast
    show ?thesis using 1 2 3 4 by blast
  qed
  show ?thesis
    using asc desc by (simp add: AscListTxs_def DescListTxs_def handleList_ASC_empty handleList_DESC_empty)
qed

theorem ListTxs_fresh_copy_witness:
  "AscListTxs (NewQueuedPool mem3) = (None, NewQueuedPool mem3) \<and>
   DescListTxs (NewQueuedPool mem3) = (None, NewQueuedPool mem3) \<and>
   fst (DescListTxs pool3) = Some 0 \<and>
   deref (snd (DescListTxs pool3)) (Some 0) = Some [2, 3, 1] \<and>
   (\<exists>q''. run [RemovedUnstuckTx 9 0xa3, AddRequest 10 (Some 4), ListRequest ASC] (snd (DescListTxs pool3)) = Inr q'' \<and>
          DescTxsByGasPrice q'' = DescList [2, 1, 4] \<and>
          deref q'' (Some 0) = Some [2, 3, 1])"
proof -
  have d: "DescListTxs pool3 = (Some 0, pool3\<lparr> slices := [[2, 3, 1]] \<rparr>)"
    by (simp add: DescListTxs_def handleList_def TxList_len_def pool3_fields)
  have r: "\<exists>q''. run [RemovedUnstuckTx 9 0xa3, AddRequest 10 (Some 4), ListRequest ASC]
                     (pool3\<lparr> slices := [[2, 3, 1]] \<rparr>) = Inr q'' \<and>
                 DescTxsByGasPrice q'' = DescList [2, 1, 4]"
    by (simp add: handleRemove_def txRemover_def txExcise_def PublishRemoved_def handleAdd_def PublishAdded_def
        handleList_def TxList_len_def Let_def pool3_fields mem3_def zeroTx_def)
  from r obtain q'' where q'':
      "run [RemovedUnstuckTx 9 0xa3, AddRequest 10 (Some 4), ListRequest ASC] (pool3\<lparr> slices := [[2, 3, 1]] \<rparr>) = Inr q''"
      "DescTxsByGasPrice q'' = DescList [2, 1, 4]"
    by blast
  have ne: "TxList_get (DescTxsByGasPrice pool3) \<noteq> []" by (simp add: pool3_fields)
  from ListTxs_fresh_copy [of pool3] ne obtain a q' where
      l: "DescListTxs pool3 = (Some a, q')"
      and kept: "\<forall>sts q''. run sts q' = Inr q'' \<longrightarrow>
                   deref q'' (Some a) = Some (TxList_get (DescTxsByGasPrice pool3))"
    by blast
  from l d have a: "a = 0" and q': "q' = pool3\<lparr> slices := [[2, 3, 1]] \<rparr>" by simp_all
  have "deref q'' (Some a) = Some (TxList_get (DescTxsByGasPrice pool3))"
    using kept q''(1) unfolding q' by blast
  then have k: "deref q'' (Some 0) = Some [2, 3, 1]"
    unfolding a by (simp add: pool3_fields)
  have e: "AscListTxs (NewQueuedPool mem3) = (None, NewQueuedPool mem3)"
      "DescListTxs (NewQueuedPool mem3) = (None, NewQueuedPool mem3)"
    using ListTxs_fresh_copy [of "NewQueuedPool mem3"] by (simp_all add: NewQueuedPool_def)
  have "deref (snd (DescListTxs pool3)) (Some 0) = Some [2, 3, 1]"
    by (simp add: d deref_def)
  then show ?thesis using e d q'' k by auto
qed

text \<open>
  The entries of a slice are pointers: the slice itself stays as it was, while the
  record behind an entry is the pool's own and \<^verbatim>\<open>Remove\<close> writes its \<^verbatim>\<open>UnstuckAt\<close>.
\<close>

lemma retained_slice_shares_records:
  "\<exists>q''. run [RemovedUnstuckTx 9 0xa3] (snd (DescListTxs pool3)) = Inr q'' \<and>
         deref q'' (Some 0) = Some [2, 3, 1] \<and>
         UnstuckAt (mem (snd (DescListTxs pool3)) 3) = 0 \<and> UnstuckAt (mem q'' 3) = 9"
  by (simp add: DescListTxs_def handleList_def TxList_len_def handleRemove_def txRemover_def txExcise_def
      PublishRemoved_def Let_def deref_def pool3_fields mem3_def zeroTx_def)

text \<open>
  C10.  On an empty pool (the invariant holds, nothing in the map) the list request for the
  descending list replies nil, and so \<^verbatim>\<open>SentFrom\<close>, \<^verbatim>\<open>SentTo\<close>, \<^verbatim>\<open>OlderThanX\<close> and
  \<^verbatim>\<open>FresherThanX\<close> return nil, not an empty list.  \<^verbatim>\<open>DuplicateTxs(h)\<close> returns nil
  whenever \<open>h\<close> is not in the pool.
\<close>

theorem filtered_queries_nil_when_empty:
  "(pool_inv q \<and> Transactions q = Map.empty \<longrightarrow>
      fst (SentFrom sched address q) = None \<and> fst (SentTo sched address q) = None \<and>
      fst (OlderThanX sched now d q) = None \<and> fst (FresherThanX sched now d q) = None \<and>
      fst (DescListTxs q) = None) \<and>
   (Transactions q hash = None \<longrightarrow> DuplicateTxs sched hash q = (None, q))"
proof -
  have "TxList_get (DescTxsByGasPrice q) = []" if "pool_inv q" "Transactions q = Map.empty"
  proof -
    from that(1) obtain xs where xs: "DescTxsByGasPrice q = DescList (rev xs)" "ran (Transactions q) = set xs"
      by (rule pool_invE) blast
    then show ?thesis using that(2) by simp
  qed
  then show ?thesis
    by (auto simp: SentFrom_def SentTo_def OlderThanX_def FresherThanX_def filtered_empty
        DescListTxs_def handleList_DESC_empty DuplicateTxs_def Get_def handleGet_def)
qed

theorem filtered_queries_nil_when_empty_witness:
  "fst (SentFrom rev 0xA (NewQueuedPool mem3)) = None \<and>
   fst (SentTo rev 0xA (NewQueuedPool mem3)) = None \<and>
   fst (OlderThanX rev 100 5 (NewQueuedPool mem3)) = None \<and>
   fst (FresherThanX rev 100 5 (NewQueuedPool mem3)) = None \<and>
   DuplicateTxs rev 0xa4 pool3 = (None, pool3) \<and>
   fst (SentFrom rev 0xC pool3) = Some []"
proof -
  have e: "Transactions (NewQueuedPool mem3) = Map.empty" by (simp add: NewQueuedPool_def)
  have n: "Transactions pool3 0xa4 = None" by (simp add: pool3_fields)
  have s: "fst (SentFrom rev 0xC pool3) = Some []"
    by (simp add: SentFrom_def filtered_def DescListTxs_def handleList_def TxList_len_def deref_def
        gather_def IsSentFrom_def pool3_fields mem3_def zeroTx_def List.map_filter_simps)
  show ?thesis
    using filtered_queries_nil_when_empty [of "NewQueuedPool mem3" rev "0xA" 100 5 "0xa4"]
      filtered_queries_nil_when_empty [of pool3 rev "0xA" 100 5 "0xa4"] pool_inv_new [of mem3] e n s
    by simp
qed

end
